theory Spec2Isabelle
  imports Main "HOL-Library.Sublist"
begin

section \<open>Text and characters\<close>

text \<open>
  The script works on Python \<open>str\<close> values: sequences of Unicode code points.  A text is
  a list of code points; \<open>str\<close> turns an ASCII literal into one.
\<close>

type_synonym pystr = "nat list"

definition str :: "string \<Rightarrow> pystr" where
  "str s = map of_char s"

text \<open>
  The class \<open>\s\<close> of a \<open>str\<close> pattern (no ASCII flag) is Python's Unicode white space:
  the code points for which \<open>str.isspace\<close> holds.
\<close>

definition isspace :: "nat \<Rightarrow> bool" where
  "isspace c = (c \<in> {9, 10, 11, 12, 13, 28, 29, 30, 31, 32, 133, 160, 5760,
                      8232, 8233, 8239, 8287, 12288} \<or> (8192 \<le> c \<and> c \<le> 8202))"

section \<open>The regular expressions of the script\<close>

text \<open>
  The fragment of Python's \<open>re\<close> syntax that the three patterns of the script use:
  a literal character, the greedy repetitions \<open>C*\<close> and \<open>C+\<close> of a character class,
  the anchors \<open>^\<close> and \<open>$\<close> in MULTILINE mode, the negative look-behind \<open>(?<!c)\<close> for one
  character, a capturing group, sequence and ordered alternative.
\<close>

datatype regex =
    Eps
  | Chr nat
  | Star "nat \<Rightarrow> bool"
  | Plus "nat \<Rightarrow> bool"
  | Bol
  | Eol
  | NotBehind nat
  | Group regex
  | Seq regex regex
  | Alt regex regex

text \<open>
  A matcher state: the character just before the current position (\<open>None\<close> at the start
  of the string), the rest of the string from the current position on, and the text the
  group has captured so far.
\<close>

type_synonym mstate = "nat option \<times> pystr \<times> pystr option"

text \<open>
  The backtracking matcher, in continuation-passing style: \<open>re_m r st k\<close> tries the
  ways \<open>r\<close> matches at \<open>st\<close> in Python's order of preference (a greedy repetition takes
  the longest run first and gives characters back one at a time; an alternative tries its
  left branch first) and returns the first result the continuation \<open>k\<close> accepts.
\<close>

fun re_m :: "regex \<Rightarrow> mstate \<Rightarrow> (mstate \<Rightarrow> 'a option) \<Rightarrow> 'a option" where
  "re_m Eps st k = k st"
| "re_m (Chr c) (p, [], g) k = None"
| "re_m (Chr c) (p, x # xs, g) k = (if x = c then k (Some x, xs, g) else None)"
| "re_m (Star C) (p, [], g) k = k (p, [], g)"
| "re_m (Star C) (p, x # xs, g) k =
     (if C x then
        (case re_m (Star C) (Some x, xs, g) k of
           Some r \<Rightarrow> Some r
         | None \<Rightarrow> k (p, x # xs, g))
      else k (p, x # xs, g))"
| "re_m (Plus C) (p, [], g) k = None"
| "re_m (Plus C) (p, x # xs, g) k =
     (if C x then re_m (Star C) (Some x, xs, g) k else None)"
| "re_m Bol (p, xs, g) k = (if p = None \<or> p = Some 10 then k (p, xs, g) else None)"
| "re_m Eol (p, xs, g) k = (if xs = [] \<or> hd xs = 10 then k (p, xs, g) else None)"
| "re_m (NotBehind c) (p, xs, g) k = (if p = Some c then None else k (p, xs, g))"
| "re_m (Group r) (p, xs, g) k =
     re_m r (p, xs, g)
       (\<lambda>(p', xs', g'). k (p', xs', Some (take (length xs - length xs') xs)))"
| "re_m (Seq r1 r2) st k = re_m r1 st (\<lambda>st'. re_m r2 st' k)"
| "re_m (Alt r1 r2) st k =
     (case re_m r1 st k of Some r \<Rightarrow> Some r | None \<Rightarrow> re_m r2 st k)"

fun seqs :: "regex list \<Rightarrow> regex" where
  "seqs [] = Eps"
| "seqs [r] = r"
| "seqs (r # rs) = Seq r (seqs rs)"

text \<open>A match object: \<open>m.start()\<close>, \<open>m.end()\<close> and the text of the group.\<close>

record match =
  m_start :: nat
  m_end :: nat
  m_group :: "pystr option"

text \<open>
  \<open>search_from r p i xs\<close> scans for the leftmost position at which \<open>r\<close> matches, where
  \<open>xs\<close> is the string from offset \<open>i\<close> on and \<open>p\<close> the character before it.  The empty
  position at the very end of the string is tried too.
\<close>

fun search_from :: "regex \<Rightarrow> nat option \<Rightarrow> nat \<Rightarrow> pystr \<Rightarrow> match option" where
  "search_from r p i xs =
     (case re_m r (p, xs, None) Some of
        Some (p', xs', g) \<Rightarrow>
          Some \<lparr>m_start = i, m_end = i + (length xs - length xs'), m_group = g\<rparr>
      | None \<Rightarrow>
          (case xs of
             [] \<Rightarrow> None
           | x # xs' \<Rightarrow> search_from r (Some x) (Suc i) xs'))"

definition re_search :: "regex \<Rightarrow> pystr \<Rightarrow> match option" where
  "re_search r s = search_from r None 0 s"

text \<open>\<^verbatim>\<open>(?m)^##\s+Modules\s*$\<close>\<close>

definition heading_re :: regex where
  "heading_re = seqs [Bol, Chr 35, Chr 35, Plus isspace,
                      Chr 77, Chr 111, Chr 100, Chr 117, Chr 108, Chr 101, Chr 115,
                      Star isspace, Eol]"

text \<open>\<^verbatim>\<open>(?m)^(?:#|\##)\s+\<close>\<close>

definition next_heading_re :: regex where
  "next_heading_re = seqs [Bol, Alt (Chr 35) (Seq (Chr 35) (Chr 35)), Plus isspace]"

text \<open>\<^verbatim>\<open>(?<!\!)\[(?P<label>[^\]]+)\]\([^)]+\)\<close>\<close>

definition link_re :: regex where
  "link_re = seqs [NotBehind 33, Chr 91, Group (Plus (\<lambda>c. c \<noteq> 93)), Chr 93,
                   Chr 40, Plus (\<lambda>c. c \<noteq> 41), Chr 41]"

section \<open>The matcher only consumes\<close>

lemma re_m_suffix:
  "re_m r st k = Some y \<Longrightarrow>
     \<exists>p' xs' g'. k (p', xs', g') = Some y \<and> suffix xs' (fst (snd st))"
proof (induction r st k arbitrary: y rule: re_m.induct)
  case (5 C p x xs g k)
  show ?case
  proof (cases "C x")
    case False
    with "5.prems" show ?thesis by auto
  next
    case True
    show ?thesis
    proof (cases "re_m (Star C) (Some x, xs, g) k")
      case None
      with True "5.prems" show ?thesis by auto
    next
      case (Some r)
      with True "5.prems" have "r = y" by simp
      with Some "5.IH"[OF True] obtain p' xs' g' where
        "k (p', xs', g') = Some y" "suffix xs' xs" by auto
      then show ?thesis by (auto intro: suffix_ConsI)
    qed
  qed
next
  case (1 st k)
  obtain p xs g where st: "st = (p, xs, g)" by (cases st)
  with "1.prems" have "k (p, xs, g) = Some y \<and> suffix xs (fst (snd st))" by simp
  then show ?case by blast
next
  case (7 C p x xs g k)
  then show ?case by (auto split: if_splits intro: suffix_ConsI)
next
  case (11 r p xs g k)
  from "11.IH"[OF "11.prems"[simplified]] show ?case by auto
next
  case (12 r1 r2 st k)
  from "12.prems" have "re_m r1 st (\<lambda>st'. re_m r2 st' k) = Some y" by simp
  from "12.IH"(2)[OF this] obtain p1 xs1 g1 where
    a: "re_m r2 (p1, xs1, g1) k = Some y" and b: "suffix xs1 (fst (snd st))" by auto
  from "12.IH"(1)[OF a] obtain p' xs' g' where
    "k (p', xs', g') = Some y" "suffix xs' xs1" by auto
  with b show ?case by (auto intro: suffix_order.trans)
next
  case (13 r1 r2 st k)
  then show ?case by (auto split: option.splits)
qed (fastforce split: if_splits intro: suffix_ConsI)+

lemma link_re_consumes:
  assumes "re_m link_re (p, xs, g) Some = Some (p', xs', g')"
  shows "length xs' < length xs"
proof (cases xs)
  case Nil
  with assms show ?thesis by (simp add: link_re_def split: if_splits)
next
  case (Cons x ys)
  with assms have
    "re_m (seqs [Group (Plus (\<lambda>c. c \<noteq> 93)), Chr 93, Chr 40, Plus (\<lambda>c. c \<noteq> 41), Chr 41])
       (Some x, ys, g) Some = Some (p', xs', g')"
    by (simp add: link_re_def split: if_splits)
  from re_m_suffix[OF this] have "suffix xs' ys" by simp
  then have "length xs' \<le> length ys" by (rule suffix_length_le)
  with Cons show ?thesis by simp
qed

lemma search_link_bounds:
  "search_from link_re p i xs = Some m \<Longrightarrow>
     i \<le> m_start m \<and> m_start m < m_end m \<and> m_end m \<le> i + length xs"
proof (induction link_re p i xs rule: search_from.induct)
  case (1 p i xs)
  show ?case
  proof (cases "re_m link_re (p, xs, None) Some")
    case None
    with "1.prems" obtain x ys where xs: "xs = x # ys"
      and s: "search_from link_re (Some x) (Suc i) ys = Some m"
      by (auto split: list.splits)
    from "1.hyps"[OF None xs s] xs show ?thesis by simp
  next
    case (Some st)
    obtain p' xs' g' where st: "st = (p', xs', g')" by (cases st)
    from link_re_consumes Some st have "length xs' < length xs" by blast
    with "1.prems" Some st show ?thesis by auto
  qed
qed

section \<open>The section rewriter\<close>

text \<open>
  \<^verbatim>\<open>re.sub(r'(?<!\!)\[(?P<label>[^\]]+)\]\([^)]+\)', r'[\g<label>]', section)\<close>:
  every leftmost match is replaced by \<open>[\<close>, the text of the group and \<open>]\<close>, and the scan
  goes on behind the match, where the look-behind still sees the last character of the
  match.  \<open>link_sub_from p xs\<close> is the scan of the rest \<open>xs\<close> of the section, \<open>p\<close> being the
  character before it.  A match of this pattern is never empty, so the scan terminates.
\<close>

function link_sub_from :: "nat option \<Rightarrow> pystr \<Rightarrow> pystr" where
  "link_sub_from p xs =
     (case search_from link_re p 0 xs of
        None \<Rightarrow> xs
      | Some m \<Rightarrow>
          take (m_start m) xs
          @ [91] @ (case m_group m of None \<Rightarrow> [] | Some label \<Rightarrow> label) @ [93]
          @ link_sub_from (Some (xs ! (m_end m - 1))) (drop (m_end m) xs))"
  by pat_completeness auto
termination
proof (relation "measure (\<lambda>(p, xs). length xs)")
  fix p xs m
  assume "search_from link_re p 0 xs = Some m"
  from search_link_bounds[OF this]
  show "((Some (xs ! (m_end m - 1)), drop (m_end m) xs), (p, xs)) \<in> measure (\<lambda>(p, xs). length xs)"
    by auto
qed simp

definition link_sub :: "pystr \<Rightarrow> pystr" where
  "link_sub section = link_sub_from None section"

text \<open>
  The end of the section: the start of the first match of the next-heading pattern in
  \<open>text[start_idx:]\<close>, as an offset into \<open>text\<close>, or the length of \<open>text\<close>.
\<close>

definition section_end :: "pystr \<Rightarrow> nat \<Rightarrow> nat" where
  "section_end text start_idx =
     (case re_search next_heading_re (drop start_idx text) of
        Some m_end' \<Rightarrow> start_idx + m_start m_end'
      | None \<Rightarrow> length text)"

text \<open>The text the script writes when the heading pattern has matched with \<open>m\<close>.\<close>

definition new_text :: "pystr \<Rightarrow> match \<Rightarrow> pystr" where
  "new_text text m =
     (let start_idx = m_end m;
          end_idx = section_end text start_idx;
          before = take start_idx text;
          section = drop start_idx (take end_idx text);
          after = drop end_idx text;
          section_fixed = link_sub section
      in before @ section_fixed @ after)"

text \<open>
  The transformation of the README's text as a whole: unchanged when the heading
  pattern finds nothing.
\<close>

definition rewrite_modules_section :: "pystr \<Rightarrow> pystr" where
  "rewrite_modules_section text =
     (case re_search heading_re text of
        None \<Rightarrow> text
      | Some m \<Rightarrow> new_text text m)"

section \<open>Paths and the file system\<close>

text \<open>
  A \<open>pathlib\<close> path: its anchor (\<open>/\<close> for an absolute POSIX path, empty for a relative
  one) and its components.  The parent of a path without components is the path itself.
\<close>

record path =
  anchor :: pystr
  names :: "pystr list"

definition parent :: "path \<Rightarrow> path" where
  "parent p = (if names p = [] then p else p\<lparr>names := butlast (names p)\<rparr>)"

definition joinpath :: "path \<Rightarrow> pystr \<Rightarrow> path" where
  "joinpath p n = p\<lparr>names := names p @ [n]\<rparr>"

fun join_names :: "pystr list \<Rightarrow> pystr" where
  "join_names [] = []"
| "join_names [n] = n"
| "join_names (n # ns) = n @ [47] @ join_names ns"

definition path_str :: "path \<Rightarrow> pystr" where
  "path_str p = (if anchor p = [] \<and> names p = [] then [46] else anchor p @ join_names (names p))"

text \<open>
  The world the script runs in: the entries of the file system (a file holds its
  characters as the UTF-8 decoder gives them, line ends as stored), the canonical form
  of every path, the log of the existence tests made so far, and the two output streams
  as lists of printed lines.  The system is POSIX: \<open>os.linesep\<close> is a single line feed,
  so writing in text mode stores the characters as they are.
\<close>

datatype entry = Dir | File pystr

record world =
  entries :: "path \<Rightarrow> entry option"
  realpath :: "path \<Rightarrow> path"
  probes :: "path list"
  stdout :: "pystr list"
  stderr :: "pystr list"

datatype error = FileNotFoundError | FileExistsError | IsADirectoryError | NotADirectoryError

datatype outcome = Return int | Raise error

text \<open>\<open>p.exists()\<close>: the test is logged.\<close>

definition path_exists :: "world \<Rightarrow> path \<Rightarrow> bool \<times> world" where
  "path_exists w p = (entries w p \<noteq> None, w\<lparr>probes := probes w @ [p]\<rparr>)"

text \<open>
  Reading in text mode translates line ends (universal newlines): a carriage return
  followed by a line feed, and a carriage return alone, become one line feed.
\<close>

fun universal_newlines :: "pystr \<Rightarrow> pystr" where
  "universal_newlines [] = []"
| "universal_newlines [x] = [if x = 13 then 10 else x]"
| "universal_newlines (x # y # ys) =
     (if x = 13 then
        (if y = 10 then 10 # universal_newlines ys else 10 # universal_newlines (y # ys))
      else x # universal_newlines (y # ys))"

text \<open>\<open>p.read_text(encoding="utf-8")\<close>\<close>

definition read_text :: "world \<Rightarrow> path \<Rightarrow> error + pystr" where
  "read_text w p =
     (case entries w p of
        None \<Rightarrow> Inl FileNotFoundError
      | Some Dir \<Rightarrow> Inl IsADirectoryError
      | Some (File c) \<Rightarrow> Inr (universal_newlines c))"

text \<open>
  \<open>p.mkdir(parents=True, exist_ok=True)\<close>: nothing to do for a directory; a file in the
  way, at \<open>p\<close> or above it, is an error; missing ancestors are created first.
\<close>

function mkdir_parents :: "world \<Rightarrow> path \<Rightarrow> error + world" where
  "mkdir_parents w p =
     (case entries w p of
        Some Dir \<Rightarrow> Inr w
      | Some (File t) \<Rightarrow> Inl FileExistsError
      | None \<Rightarrow>
          (case entries w (parent p) of
             Some Dir \<Rightarrow> Inr (w\<lparr>entries := (entries w)(p \<mapsto> Dir)\<rparr>)
           | Some (File t) \<Rightarrow> Inl NotADirectoryError
           | None \<Rightarrow>
               if parent p = p then Inl FileNotFoundError
               else (case mkdir_parents w (parent p) of
                       Inl e \<Rightarrow> Inl e
                     | Inr w' \<Rightarrow> Inr (w'\<lparr>entries := (entries w')(p \<mapsto> Dir)\<rparr>))))"
  by pat_completeness auto
termination
  by (relation "measure (\<lambda>(w, p). length (names p))")
     (auto simp: parent_def split: if_splits)

text \<open>\<open>p.write_text(t, encoding="utf-8")\<close>: creates or replaces the file.\<close>

definition write_text :: "world \<Rightarrow> path \<Rightarrow> pystr \<Rightarrow> error + world" where
  "write_text w p t =
     (case entries w p of
        Some Dir \<Rightarrow> Inl IsADirectoryError
      | _ \<Rightarrow>
          (case entries w (parent p) of
             None \<Rightarrow> Inl FileNotFoundError
           | Some (File t') \<Rightarrow> Inl NotADirectoryError
           | Some Dir \<Rightarrow> Inr (w\<lparr>entries := (entries w)(p \<mapsto> File t)\<rparr>)))"

section \<open>The root locator\<close>

text \<open>
  The loop of \<open>find_project_root\<close>: \<open>cur\<close> is the candidate, \<open>start\<close> the path the
  function was called with.  \<open>and\<close> is short-circuit: \<open>src\<close> is tested only when
  \<open>README.md\<close> exists.
\<close>

function root_walk :: "world \<Rightarrow> path \<Rightarrow> path \<Rightarrow> path \<times> world" where
  "root_walk w start cur =
     (let (git, w1) = path_exists w (joinpath cur (str ''.git'')) in
      if git then (cur, w1)
      else
        let (readme, w2) = path_exists w1 (joinpath cur (str ''README.md''));
            (src, w3) = (if readme then path_exists w2 (joinpath cur (str ''src''))
                         else (False, w2))
        in if readme \<and> src then (cur, w3)
           else if parent cur = cur then (start, w3)
           else root_walk w3 start (parent cur))"
  by pat_completeness auto
termination
  by (relation "measure (\<lambda>(w, start, cur). length (names cur))")
     (auto simp: parent_def split: if_splits)

definition find_project_root :: "world \<Rightarrow> path \<Rightarrow> path \<times> world" where
  "find_project_root w start = root_walk w start (realpath w start)"

section \<open>The script\<close>

text \<open>
  \<open>main\<close>, given the world, the current working directory and the path of the script
  file.  An exception of a file operation ends the run with the world as it then is.
\<close>

definition write_out :: "world \<Rightarrow> path \<Rightarrow> path \<Rightarrow> pystr \<Rightarrow> pystr \<Rightarrow> outcome \<times> world" where
  "write_out w OUTDIR OUTFILE t msg =
     (case mkdir_parents w OUTDIR of
        Inl e \<Rightarrow> (Raise e, w)
      | Inr w1 \<Rightarrow>
          (case write_text w1 OUTFILE t of
             Inl e \<Rightarrow> (Raise e, w1)
           | Inr w2 \<Rightarrow> (Return 0, w2\<lparr>stdout := stdout w2 @ [msg]\<rparr>)))"

text \<open>
  The choice of the root (the first lines of \<open>main\<close>): the root found from the current
  directory or, when that one holds no \<open>README.md\<close>, the root found from the directory of
  the script.
\<close>

definition resolve_root :: "world \<Rightarrow> path \<Rightarrow> path \<Rightarrow> path \<times> world" where
  "resolve_root w0 cwd file =
     (let script_dir = parent (realpath w0 file);
          (root, w1) = find_project_root w0 cwd;
          (found, w2) = path_exists w1 (joinpath root (str ''README.md''))
      in if \<not> found then find_project_root w2 script_dir else (root, w2))"

definition main :: "world \<Rightarrow> path \<Rightarrow> path \<Rightarrow> outcome \<times> world" where
  "main w0 cwd file =
     (let (root, w3) = resolve_root w0 cwd file;
          README = joinpath root (str ''README.md'');
          OUTDIR = joinpath root (str ''src'');
          OUTFILE = joinpath OUTDIR (str ''RUSTDOC.md'');
          (readme_exists, w4) = path_exists w3 README
      in if \<not> readme_exists then
           (Return 1,
            w4\<lparr>stderr := stderr w4 @
              [str ''Error: '' @ path_str README @ str '' not found (root: ''
               @ path_str root @ str '')'']\<rparr>)
         else
           (case read_text w4 README of
              Inl e \<Rightarrow> (Raise e, w4)
            | Inr text \<Rightarrow>
                (case re_search heading_re text of
                   None \<Rightarrow>
                     write_out w4 OUTDIR OUTFILE text
                       (str ''Section '' @ [39] @ str ''## Modules'' @ [39]
                        @ str '' not found. Copied README to src/RUSTDOC.md unchanged.'')
                 | Some m \<Rightarrow>
                     write_out w4 OUTDIR OUTFILE (new_text text m)
                       (str ''Created '' @ path_str OUTFILE @ str '' (project root: ''
                        @ path_str root @ str '') with Docs.rs style links in ''
                        @ [39] @ str ''## Modules'' @ [39] @ str '' section.''))))"

section \<open>Root markers and the walk\<close>

text \<open>
  A directory holds a root marker when \<open>.git\<close> exists in it, or both \<open>README.md\<close> and
  \<open>src\<close> do.  \<open>ancestors c\<close> lists \<open>c\<close> and the directories above it, up to the one
  that is its own parent.  \<open>probed w ps\<close> is the world \<open>w\<close> after the existence tests
  \<open>ps\<close>, and \<open>marker_probes\<close> the tests a candidate with a marker takes.
\<close>

definition has_marker :: "(path \<Rightarrow> entry option) \<Rightarrow> path \<Rightarrow> bool" where
  "has_marker es c =
     (es (joinpath c (str ''.git'')) \<noteq> None \<or>
      (es (joinpath c (str ''README.md'')) \<noteq> None \<and> es (joinpath c (str ''src'')) \<noteq> None))"

function ancestors :: "path \<Rightarrow> path list" where
  "ancestors c = (if parent c = c then [c] else c # ancestors (parent c))"
  by pat_completeness auto
termination
  by (relation "measure (\<lambda>c. length (names c))")
     (auto simp: parent_def split: if_splits)

text \<open>
  A concrete canonical form for the examples: a relative path lies under \<open>/home\<close>.
\<close>

definition abs_home :: "path \<Rightarrow> path" where
  "abs_home p = (if anchor p = [] then \<lparr>anchor = [47], names = str ''home'' # names p\<rparr> else p)"

declare root_walk.simps [simp del] ancestors.simps [simp del] mkdir_parents.simps [simp del]
  link_sub_from.simps [simp del]

definition probed :: "world \<Rightarrow> path list \<Rightarrow> world" where
  "probed w ps = w\<lparr>probes := probes w @ ps\<rparr>"

definition marker_probes :: "(path \<Rightarrow> entry option) \<Rightarrow> path \<Rightarrow> path list" where
  "marker_probes es c =
     (if es (joinpath c (str ''.git'')) \<noteq> None then [joinpath c (str ''.git'')]
      else [joinpath c (str ''.git''), joinpath c (str ''README.md''), joinpath c (str ''src'')])"

lemma root_walk_git:
  "entries w (joinpath cur (str ''.git'')) \<noteq> None \<Longrightarrow>
     root_walk w start cur = (cur, probed w [joinpath cur (str ''.git'')])"
  by (subst root_walk.simps) (simp add: path_exists_def probed_def)

lemma root_walk_readme_src:
  "entries w (joinpath cur (str ''.git'')) = None \<Longrightarrow>
   entries w (joinpath cur (str ''README.md'')) \<noteq> None \<Longrightarrow>
   entries w (joinpath cur (str ''src'')) \<noteq> None \<Longrightarrow>
     root_walk w start cur =
       (cur, probed w [joinpath cur (str ''.git''), joinpath cur (str ''README.md''),
                       joinpath cur (str ''src'')])"
  by (subst root_walk.simps) (simp add: path_exists_def probed_def)

lemma root_walk_marker:
  "has_marker (entries w) cur \<Longrightarrow>
     root_walk w start cur = (cur, probed w (marker_probes (entries w) cur))"
  by (cases "entries w (joinpath cur (str ''.git'')) = None")
     (simp_all add: has_marker_def marker_probes_def root_walk_git root_walk_readme_src)

lemma root_walk_no_marker:
  assumes "\<not> has_marker (entries w) cur"
  shows "\<exists>ps. root_walk w start cur =
       (if parent cur = cur then (start, probed w ps)
        else root_walk (probed w ps) start (parent cur))"
proof (cases "entries w (joinpath cur (str ''README.md'')) = None")
  case True
  with assms have "root_walk w start cur =
       (if parent cur = cur
        then (start, probed w [joinpath cur (str ''.git''), joinpath cur (str ''README.md'')])
        else root_walk (probed w [joinpath cur (str ''.git''), joinpath cur (str ''README.md'')])
               start (parent cur))"
    by (subst root_walk.simps) (simp add: path_exists_def probed_def has_marker_def)
  then show ?thesis by blast
next
  case False
  with assms have "root_walk w start cur =
       (if parent cur = cur
        then (start, probed w [joinpath cur (str ''.git''), joinpath cur (str ''README.md''),
                               joinpath cur (str ''src'')])
        else root_walk (probed w [joinpath cur (str ''.git''), joinpath cur (str ''README.md''),
                                  joinpath cur (str ''src'')])
               start (parent cur))"
    by (subst root_walk.simps) (simp add: path_exists_def probed_def has_marker_def)
  then show ?thesis by blast
qed

lemma entries_probed: "entries (probed w ps) = entries w"
  by (simp add: probed_def)

lemma probed_probed: "probed (probed w ps) qs = probed w (ps @ qs)"
  by (simp add: probed_def)

lemma root_walk_fallback:
  "\<forall>c \<in> set (ancestors cur). \<not> has_marker (entries w) c \<Longrightarrow>
     fst (root_walk w start cur) = start"
proof (induction cur arbitrary: w rule: ancestors.induct)
  case (1 c)
  from "1.prems" have nm: "\<not> has_marker (entries w) c"
    by (subst (asm) ancestors.simps) (auto split: if_splits)
  from root_walk_no_marker[OF nm] obtain ps where
    step: "root_walk w start c =
       (if parent c = c then (start, probed w ps)
        else root_walk (probed w ps) start (parent c))" by blast
  show ?case
  proof (cases "parent c = c")
    case True
    with step show ?thesis by simp
  next
    case False
    from "1.prems" False
    have "\<forall>c' \<in> set (ancestors (parent c)). \<not> has_marker (entries (probed w ps)) c'"
      by (subst (asm) ancestors.simps) (simp add: entries_probed)
    from "1.IH"[OF False this] step False show ?thesis by simp
  qed
qed

lemma root_walk_probed: "\<exists>r ps. root_walk w start cur = (r, probed w ps)"
proof (induction cur arbitrary: w rule: ancestors.induct)
  case (1 c)
  show ?case
  proof (cases "has_marker (entries w) c")
    case True
    from root_walk_marker[OF True] show ?thesis by blast
  next
    case nm: False
    from root_walk_no_marker[OF nm] obtain ps where
      step: "root_walk w start c =
         (if parent c = c then (start, probed w ps)
          else root_walk (probed w ps) start (parent c))" by blast
    show ?thesis
    proof (cases "parent c = c")
      case True
      with step show ?thesis by auto
    next
      case False
      from "1.IH"[OF False, of "probed w ps"] obtain r qs where
        "root_walk (probed w ps) start (parent c) = (r, probed (probed w ps) qs)" by blast
      with step False have "root_walk w start c = (r, probed w (ps @ qs))"
        by (simp add: probed_probed)
      then show ?thesis by blast
    qed
  qed
qed

lemma realpath_probed: "realpath (probed w ps) = realpath w"
  by (simp add: probed_def)

lemma find_project_root_probed: "\<exists>r ps. find_project_root w start = (r, probed w ps)"
  unfolding find_project_root_def by (rule root_walk_probed)

lemma resolve_root_probed: "\<exists>r ps. resolve_root w cwd file = (r, probed w ps)"
proof -
  obtain r1 ps1 where a: "find_project_root w cwd = (r1, probed w ps1)"
    using find_project_root_probed by blast
  let ?w2 = "probed w (ps1 @ [joinpath r1 (str ''README.md'')])"
  obtain r2 ps2 where b: "find_project_root ?w2 (parent (realpath w file)) = (r2, probed ?w2 ps2)"
    using find_project_root_probed by blast
  have w2: "probed w ps1\<lparr>probes := probes (probed w ps1) @ [joinpath r1 (str ''README.md'')]\<rparr> = ?w2"
    by (simp add: probed_def)
  show ?thesis
  proof (cases "entries w (joinpath r1 (str ''README.md'')) = None")
    case True
    with a b w2 have "resolve_root w cwd file = (r2, probed w ((ps1 @ [joinpath r1 (str ''README.md'')]) @ ps2))"
      by (simp add: resolve_root_def path_exists_def entries_probed probed_probed)
    then show ?thesis by blast
  next
    case False
    with a w2 have "resolve_root w cwd file = (r1, ?w2)"
      by (auto simp: resolve_root_def path_exists_def entries_probed)
    then show ?thesis by blast
  qed
qed


section \<open>Claims about the root locator\<close>

text \<open>
  C4.  When neither the canonical form of the starting directory nor any directory above
  it holds a root marker (\<open>.git\<close>, or both \<open>README.md\<close> and \<open>src\<close>), \<open>find_project_root\<close>
  returns the starting path as it was given, not its canonical form and not the file
  system's root.
\<close>

theorem find_project_root_fallback:
  "\<forall>c \<in> set (ancestors (realpath w start)). \<not> has_marker (entries w) c \<Longrightarrow>
     fst (find_project_root w start) = start"
  unfolding find_project_root_def by (rule root_walk_fallback)

theorem find_project_root_fallback_witness:
  "fst (find_project_root
      \<lparr>entries = [\<lparr>anchor = [47], names = [str ''home'', str ''README.md'']\<rparr> \<mapsto> File (str ''x'')],
       realpath = abs_home, probes = [], stdout = [], stderr = []\<rparr>
      \<lparr>anchor = [], names = [str ''work'']\<rparr>)
   = \<lparr>anchor = [], names = [str ''work'']\<rparr>"
  by (rule find_project_root_fallback)
     (simp add: ancestors.simps parent_def has_marker_def joinpath_def abs_home_def str_def)

text \<open>
  C5.  When the starting directory (in its canonical form) holds \<open>.git\<close>, or both
  \<open>README.md\<close> and \<open>src\<close>, \<open>find_project_root\<close> returns that directory.  The existence
  tests it makes are \<open>.git\<close> alone when \<open>.git\<close> exists, and \<open>.git\<close>, \<open>README.md\<close>, \<open>src\<close> in
  this order otherwise: the marker is tested first, the pair only when that test fails.
\<close>

theorem find_project_root_marker:
  "has_marker (entries w) (realpath w start) \<Longrightarrow>
     find_project_root w start =
       (realpath w start, probed w (marker_probes (entries w) (realpath w start)))"
  unfolding find_project_root_def by (rule root_walk_marker)

theorem find_project_root_marker_witness:
  "find_project_root
      \<lparr>entries = [\<lparr>anchor = [47], names = [str ''home'', str ''work'', str ''.git'']\<rparr> \<mapsto> Dir,
                  \<lparr>anchor = [47], names = [str ''home'', str ''work'', str ''README.md'']\<rparr> \<mapsto> File (str ''x''),
                  \<lparr>anchor = [47], names = [str ''home'', str ''work'', str ''src'']\<rparr> \<mapsto> Dir],
       realpath = abs_home, probes = [], stdout = [], stderr = []\<rparr>
      \<lparr>anchor = [], names = [str ''work'']\<rparr>
   = (\<lparr>anchor = [47], names = [str ''home'', str ''work'']\<rparr>,
      \<lparr>entries = [\<lparr>anchor = [47], names = [str ''home'', str ''work'', str ''.git'']\<rparr> \<mapsto> Dir,
                  \<lparr>anchor = [47], names = [str ''home'', str ''work'', str ''README.md'']\<rparr> \<mapsto> File (str ''x''),
                  \<lparr>anchor = [47], names = [str ''home'', str ''work'', str ''src'']\<rparr> \<mapsto> Dir],
       realpath = abs_home,
       probes = [\<lparr>anchor = [47], names = [str ''home'', str ''work'', str ''.git'']\<rparr>],
       stdout = [], stderr = []\<rparr>)"
  using find_project_root_marker
    [of "\<lparr>entries = [\<lparr>anchor = [47], names = [str ''home'', str ''work'', str ''.git'']\<rparr> \<mapsto> Dir,
                  \<lparr>anchor = [47], names = [str ''home'', str ''work'', str ''README.md'']\<rparr> \<mapsto> File (str ''x''),
                  \<lparr>anchor = [47], names = [str ''home'', str ''work'', str ''src'']\<rparr> \<mapsto> Dir],
       realpath = abs_home, probes = [], stdout = [], stderr = []\<rparr>"
        "\<lparr>anchor = [], names = [str ''work'']\<rparr>"]
  by (simp add: has_marker_def marker_probes_def probed_def joinpath_def abs_home_def str_def)


section \<open>Claims about the script as a whole\<close>

text \<open>Example worlds: a project at \<open>/home/work\<close> with the script under \<open>tools\<close>.\<close>

definition work :: path where
  "work = \<lparr>anchor = [47], names = [str ''home'', str ''work'']\<rparr>"

definition script :: path where
  "script = \<lparr>anchor = [47], names = [str ''home'', str ''work'', str ''tools'', str ''update_rustdoc.py'']\<rparr>"

definition world0 :: "(path \<Rightarrow> entry option) \<Rightarrow> world" where
  "world0 es = \<lparr>entries = es, realpath = abs_home, probes = [], stdout = [], stderr = []\<rparr>"

definition readme_world :: "pystr \<Rightarrow> world" where
  "readme_world c =
     world0 [work \<mapsto> Dir, joinpath work (str ''.git'') \<mapsto> Dir,
             joinpath work (str ''README.md'') \<mapsto> File c]"

lemma parent_joinpath: "parent (joinpath p n) = p"
  by (simp add: parent_def joinpath_def)

lemma joinpath_neq: "joinpath p n \<noteq> p"
  by (simp add: joinpath_def) (metis append_self_conv list.distinct(1) path.select_convs(2) path.surjective path.update_convs(2))

lemma mkdir_parents_dir: "entries w p = Some Dir \<Longrightarrow> mkdir_parents w p = Inr w"
  by (subst mkdir_parents.simps) simp

lemma mkdir_parents_new:
  "entries w p = None \<Longrightarrow> entries w (parent p) = Some Dir \<Longrightarrow>
     mkdir_parents w p = Inr (w\<lparr>entries := (entries w)(p \<mapsto> Dir)\<rparr>)"
  by (subst mkdir_parents.simps) simp

lemma write_out_ok:
  assumes "entries w root = Some Dir"
      and "entries w (joinpath root (str ''src'')) \<in> {None, Some Dir}"
      and "entries w (joinpath (joinpath root (str ''src'')) (str ''RUSTDOC.md'')) \<noteq> Some Dir"
  shows "write_out w (joinpath root (str ''src''))
           (joinpath (joinpath root (str ''src'')) (str ''RUSTDOC.md'')) t msg =
         (Return 0,
          w\<lparr>entries := (entries w)(joinpath root (str ''src'') \<mapsto> Dir,
                  joinpath (joinpath root (str ''src'')) (str ''RUSTDOC.md'') \<mapsto> File t),
            stdout := stdout w @ [msg]\<rparr>)"
proof -
  let ?src = "joinpath root (str ''src'')"
  let ?out = "joinpath ?src (str ''RUSTDOC.md'')"
  have ne: "?out \<noteq> ?src" by (rule joinpath_neq)
  show ?thesis
  proof (cases "entries w ?src = None")
    case True
    with assms(1) have mk: "mkdir_parents w ?src = Inr (w\<lparr>entries := (entries w)(?src \<mapsto> Dir)\<rparr>)"
      by (simp add: mkdir_parents_new parent_joinpath)
    from assms(3) ne show ?thesis
      by (cases "entries w ?out")
         (simp_all add: write_out_def mk write_text_def parent_joinpath split: entry.splits)
  next
    case False
    with assms(2) have d: "entries w ?src = Some Dir" by simp
    then have mk: "mkdir_parents w ?src = Inr w"
      by (simp add: mkdir_parents_dir)
    have e: "(entries w)(?src \<mapsto> Dir) = entries w"
      using d by (simp add: fun_upd_idem)
    from assms(3) ne d show ?thesis
      by (cases "entries w ?out")
         (simp_all add: write_out_def mk write_text_def parent_joinpath e split: entry.splits)
  qed
qed

lemma main_reads:
  assumes "resolve_root w0 cwd file = (root, w3)"
      and "entries w0 (joinpath root (str ''README.md'')) = Some (File c)"
  shows "main w0 cwd file =
    (case re_search heading_re (universal_newlines c) of
       None \<Rightarrow>
         write_out (probed w3 [joinpath root (str ''README.md'')])
           (joinpath root (str ''src''))
           (joinpath (joinpath root (str ''src'')) (str ''RUSTDOC.md'')) (universal_newlines c)
           (str ''Section '' @ [39] @ str ''## Modules'' @ [39]
            @ str '' not found. Copied README to src/RUSTDOC.md unchanged.'')
     | Some m \<Rightarrow>
         write_out (probed w3 [joinpath root (str ''README.md'')])
           (joinpath root (str ''src''))
           (joinpath (joinpath root (str ''src'')) (str ''RUSTDOC.md''))
           (new_text (universal_newlines c) m)
           (str ''Created '' @ path_str (joinpath (joinpath root (str ''src'')) (str ''RUSTDOC.md''))
            @ str '' (project root: '' @ path_str root
            @ str '') with Docs.rs style links in ''
            @ [39] @ str ''## Modules'' @ [39] @ str '' section.''))"
proof -
  from resolve_root_probed[of w0 cwd "file"] assms(1) obtain ps where "w3 = probed w0 ps"
    by auto
  then have e: "entries w3 = entries w0" by (simp add: entries_probed)
  from assms e show ?thesis
    by (simp add: main_def Let_def path_exists_def read_text_def entries_probed
          probed_def[symmetric])
qed

lemmas rewrite_eval =
  rewrite_modules_section_def re_search_def heading_re_def str_def isspace_def
  new_text_def section_end_def next_heading_re_def link_sub_def link_sub_from.simps
  link_re_def Let_def

lemma eval_root_missing:
  "fst (resolve_root (world0 [joinpath work (str ''.git'') \<mapsto> Dir]) work script) = work"
  by (simp add: resolve_root_def find_project_root_def Let_def world0_def abs_home_def work_def
        root_walk.simps path_exists_def script_def parent_def joinpath_def str_def
        split: prod.splits)

lemma eval_root_readme: "fst (resolve_root (readme_world c) work script) = work"
  by (simp add: resolve_root_def find_project_root_def Let_def world0_def abs_home_def work_def
        root_walk.simps path_exists_def script_def parent_def joinpath_def str_def
        readme_world_def split: prod.splits)

text \<open>
  C7.  When the \<open>README.md\<close> of the chosen root does not exist, the script prints the line
  with the attempted path and the root to the error stream, returns the exit status 1,
  prints nothing to the standard output and leaves every entry of the file system as it
  was: no output file is written.
\<close>

theorem main_missing_readme:
  assumes "fst (resolve_root w0 cwd file) = root"
      and "entries w0 (joinpath root (str ''README.md'')) = None"
  shows "fst (main w0 cwd file) = Return 1
       \<and> stderr (snd (main w0 cwd file)) =
           stderr w0 @ [str ''Error: '' @ path_str (joinpath root (str ''README.md''))
                        @ str '' not found (root: '' @ path_str root @ str '')'']
       \<and> stdout (snd (main w0 cwd file)) = stdout w0
       \<and> entries (snd (main w0 cwd file)) = entries w0"
proof -
  from resolve_root_probed[of w0 cwd "file"] assms(1) obtain ps where
    "resolve_root w0 cwd file = (root, probed w0 ps)"
    by auto
  with assms(2) show ?thesis
    by (simp add: main_def path_exists_def probed_def Let_def)
qed

theorem main_missing_readme_witness:
  "fst (main (world0 [joinpath work (str ''.git'') \<mapsto> Dir]) work script) = Return 1
   \<and> stderr (snd (main (world0 [joinpath work (str ''.git'') \<mapsto> Dir]) work script)) =
       [str ''Error: /home/work/README.md not found (root: /home/work)'']
   \<and> stdout (snd (main (world0 [joinpath work (str ''.git'') \<mapsto> Dir]) work script)) = []
   \<and> entries (snd (main (world0 [joinpath work (str ''.git'') \<mapsto> Dir]) work script)) =
       [joinpath work (str ''.git'') \<mapsto> Dir]"
  using main_missing_readme[of "world0 [joinpath work (str ''.git'') \<mapsto> Dir]" work script work]
    eval_root_missing
  by (simp add: world0_def path_str_def joinpath_def work_def str_def)

text \<open>
  What \<open>main\<close> writes when the README exists as a file and the file operations succeed
  (the root is a directory, \<open>src\<close> is not a file, \<open>src/RUSTDOC.md\<close> is not a directory):
  the rewriting of the text read, with the line of the unchanged copy when the heading
  pattern finds nothing in it and the line of the rewritten copy otherwise.
\<close>

lemma main_writes:
  assumes "fst (resolve_root w0 cwd file) = root"
      and "entries w0 (joinpath root (str ''README.md'')) = Some (File c)"
      and "entries w0 root = Some Dir"
      and "entries w0 (joinpath root (str ''src'')) \<in> {None, Some Dir}"
      and "entries w0 (joinpath (joinpath root (str ''src'')) (str ''RUSTDOC.md'')) \<noteq> Some Dir"
  shows "fst (main w0 cwd file) = Return 0
       \<and> entries (snd (main w0 cwd file)) =
           (entries w0)(joinpath root (str ''src'') \<mapsto> Dir,
                        joinpath (joinpath root (str ''src'')) (str ''RUSTDOC.md'') \<mapsto>
                          File (rewrite_modules_section (universal_newlines c)))
       \<and> stdout (snd (main w0 cwd file)) =
           stdout w0 @
           [if re_search heading_re (universal_newlines c) = None
            then str ''Section '' @ [39] @ str ''## Modules'' @ [39]
                 @ str '' not found. Copied README to src/RUSTDOC.md unchanged.''
            else str ''Created ''
                 @ path_str (joinpath (joinpath root (str ''src'')) (str ''RUSTDOC.md''))
                 @ str '' (project root: '' @ path_str root
                 @ str '') with Docs.rs style links in ''
                 @ [39] @ str ''## Modules'' @ [39] @ str '' section.'']
       \<and> stderr (snd (main w0 cwd file)) = stderr w0"
proof -
  from resolve_root_probed[of w0 cwd "file"] assms(1) obtain ps where
    r: "resolve_root w0 cwd file = (root, probed w0 ps)"
    by auto
  define w3 where "w3 = probed w0 ps"
  note w3 = w3_def
  let ?w4 = "probed w3 [joinpath root (str ''README.md'')]"
  have e: "entries ?w4 = entries w0" "stdout ?w4 = stdout w0" "stderr ?w4 = stderr w0"
    by (simp_all add: w3 probed_def)
  from assms(3-5) have a:
    "entries ?w4 root = Some Dir"
    "entries ?w4 (joinpath root (str ''src'')) \<in> {None, Some Dir}"
    "entries ?w4 (joinpath (joinpath root (str ''src'')) (str ''RUSTDOC.md'')) \<noteq> Some Dir"
    by (simp_all add: e)
  show ?thesis
  proof (cases "re_search heading_re (universal_newlines c)")
    case None
    with main_reads[OF r[folded w3_def] assms(2)] write_out_ok[OF a] show ?thesis
      by (simp add: e rewrite_modules_section_def)
  next
    case (Some m)
    with main_reads[OF r[folded w3_def] assms(2)] write_out_ok[OF a] show ?thesis
      by (simp add: e rewrite_modules_section_def)
  qed
qed

lemma readme_world_distinct:
  "joinpath work (str ''README.md'') \<noteq> work"
  "joinpath work (str ''.git'') \<noteq> work"
  "joinpath work (str ''src'') \<noteq> work"
  "joinpath work (str ''src'') \<noteq> joinpath work (str ''.git'')"
  "joinpath work (str ''src'') \<noteq> joinpath work (str ''README.md'')"
  "joinpath (joinpath work (str ''src'')) (str ''RUSTDOC.md'') \<noteq> work"
  "joinpath (joinpath work (str ''src'')) (str ''RUSTDOC.md'') \<noteq> joinpath work (str ''.git'')"
  "joinpath (joinpath work (str ''src'')) (str ''RUSTDOC.md'') \<noteq> joinpath work (str ''README.md'')"
  by (simp_all add: joinpath_def work_def str_def)

lemma main_readme_world:
  "fst (main (readme_world c) work script) = Return 0
   \<and> entries (snd (main (readme_world c) work script))
        (joinpath (joinpath work (str ''src'')) (str ''RUSTDOC.md'')) =
       Some (File (rewrite_modules_section (universal_newlines c)))
   \<and> stdout (snd (main (readme_world c) work script)) =
       [if re_search heading_re (universal_newlines c) = None
        then str ''Section '' @ [39] @ str ''## Modules'' @ [39]
             @ str '' not found. Copied README to src/RUSTDOC.md unchanged.''
        else str ''Created ''
             @ path_str (joinpath (joinpath work (str ''src'')) (str ''RUSTDOC.md''))
             @ str '' (project root: '' @ path_str work
             @ str '') with Docs.rs style links in ''
             @ [39] @ str ''## Modules'' @ [39] @ str '' section.'']"
proof -
  have e: "entries (readme_world c) = [work \<mapsto> Dir, joinpath work (str ''.git'') \<mapsto> Dir,
             joinpath work (str ''README.md'') \<mapsto> File c]"
      "stdout (readme_world c) = []" "stderr (readme_world c) = []"
    by (simp_all add: readme_world_def world0_def)
  from main_writes[OF eval_root_readme, of c c] readme_world_distinct
  show ?thesis by (simp add: e)
qed

text \<open>
  The copy of a README without a heading is the text as read: a README stored with
  carriage returns is written with line feeds only.
\<close>

lemma main_copy_line_ends:
  "entries (snd (main (readme_world (str ''a'' @ [13, 10] @ str ''b'' @ [13])) work script))
        (joinpath (joinpath work (str ''src'')) (str ''RUSTDOC.md'')) =
     Some (File (str ''a\<newline>b\<newline>''))"
  using main_readme_world[of "str ''a'' @ [13, 10] @ str ''b'' @ [13]"]
  by (simp add: rewrite_eval)

text \<open>
  C6.  The claim: a text without a \<open>## Modules\<close> heading is written unchanged, the
  unchanged copy is reported and the status is 0.  The code at a README whose text is
  \<open>##\<close>, a line break, \<open>Modules\<close>, a line break and the line \<open>[a](b)\<close>: no line of this text
  is a \<open>## Modules\<close> heading, but \<open>\s+\<close> in the heading pattern also matches the line
  break, so the pattern matches across the two lines, the link below is rewritten, and
  the line printed is the one of the rewritten copy.
\<close>

theorem main_split_heading_rewritten:
  "fst (main (readme_world (str ''##\<newline>Modules\<newline>[a](b)\<newline>'')) work script) = Return 0
   \<and> entries (snd (main (readme_world (str ''##\<newline>Modules\<newline>[a](b)\<newline>'')) work script))
        (joinpath (joinpath work (str ''src'')) (str ''RUSTDOC.md'')) =
       Some (File (str ''##\<newline>Modules\<newline>[a]\<newline>''))
   \<and> stdout (snd (main (readme_world (str ''##\<newline>Modules\<newline>[a](b)\<newline>'')) work script)) =
       [str ''Created /home/work/src/RUSTDOC.md (project root: /home/work) with Docs.rs style links in ''
        @ [39] @ str ''## Modules'' @ [39] @ str '' section.'']"
  using main_readme_world[of "str ''##\<newline>Modules\<newline>[a](b)\<newline>''"]
  by (simp add: rewrite_eval path_str_def joinpath_def work_def)

section \<open>Claims about the section rewriter\<close>

declare search_from.simps [simp del]

lemmas search_eval = rewrite_eval search_from.simps

lemma search_bounds:
  "search_from r p i xs = Some m \<Longrightarrow>
     i \<le> m_start m \<and> m_start m \<le> m_end m \<and> m_end m \<le> i + length xs"
proof (induction r p i xs rule: search_from.induct)
  case (1 r p i xs)
  show ?case
  proof (cases "re_m r (p, xs, None) Some")
    case None
    with "1.prems" obtain x ys where xs: "xs = x # ys"
      and s: "search_from r (Some x) (Suc i) ys = Some m"
      by (subst (asm) search_from.simps) (auto split: list.splits)
    from "1.IH"[OF None xs s] xs show ?thesis by simp
  next
    case (Some st)
    obtain p' xs' g' where st: "st = (p', xs', g')" by (cases st)
    with "1.prems" Some show ?thesis
      by (subst (asm) search_from.simps) auto
  qed
qed

lemma re_search_bounds:
  "re_search r s = Some m \<Longrightarrow> m_start m \<le> m_end m \<and> m_end m \<le> length s"
  using search_bounds[of r None 0 s m] by (simp add: re_search_def)

lemma section_end_bounds:
  assumes "start_idx \<le> length T"
  shows "start_idx \<le> section_end T start_idx \<and> section_end T start_idx \<le> length T"
proof (cases "re_search next_heading_re (drop start_idx T)")
  case None
  with assms show ?thesis by (simp add: section_end_def)
next
  case (Some me)
  from re_search_bounds[OF Some] have "m_start me \<le> length T - start_idx" by simp
  with assms Some show ?thesis
    by (simp add: section_end_def)
qed

text \<open>
  C2.  When the heading pattern matches, with \<open>start = m.end()\<close> and \<open>end\<close> the section's
  end, \<open>start \<le> end \<le> len(T)\<close> and the rewritten text is the first \<open>start\<close> characters of
  \<open>T\<close>, the link substitution of \<open>T[start:end]\<close>, and \<open>T\<close> from \<open>end\<close> on: the prefix of
  the output up to \<open>start\<close> and its suffix of the length of \<open>T[end:]\<close> are those of \<open>T\<close>,
  character by character.
\<close>

theorem rewrite_frame:
  assumes "re_search heading_re T = Some m"
  shows "m_end m \<le> section_end T (m_end m)
       \<and> section_end T (m_end m) \<le> length T
       \<and> rewrite_modules_section T =
           take (m_end m) T
           @ link_sub (drop (m_end m) (take (section_end T (m_end m)) T))
           @ drop (section_end T (m_end m)) T
       \<and> take (m_end m) (rewrite_modules_section T) = take (m_end m) T
       \<and> drop (length (rewrite_modules_section T) - (length T - section_end T (m_end m)))
            (rewrite_modules_section T) = drop (section_end T (m_end m)) T"
proof -
  let ?s = "m_end m" and ?e = "section_end T (m_end m)"
  from re_search_bounds[OF assms] have s: "?s \<le> length T" by simp
  from section_end_bounds[OF s] have e: "?s \<le> ?e" "?e \<le> length T" by simp_all
  have r: "rewrite_modules_section T = take ?s T @ link_sub (drop ?s (take ?e T)) @ drop ?e T"
    using assms by (simp add: rewrite_modules_section_def new_text_def Let_def)
  have l: "length (rewrite_modules_section T) - (length T - ?e) =
           length (take ?s T @ link_sub (drop ?s (take ?e T)))"
    using e by (simp add: r)
  have d: "drop (length (rewrite_modules_section T) - (length T - ?e))
            (rewrite_modules_section T) = drop ?e T"
    unfolding l unfolding r by (simp only: append_assoc[symmetric] append_eq_conv_conj drop_append) simp
  from s e r d show ?thesis by simp
qed

theorem rewrite_frame_witness:
  "rewrite_modules_section (str ''# T\<newline>## Modules\<newline>[a](b)\<newline># U\<newline>[c](d)'')
   = str ''# T\<newline>## Modules'' @ link_sub (str ''\<newline>[a](b)\<newline>'') @ str ''# U\<newline>[c](d)''"
proof -
  have m: "re_search heading_re (str ''# T\<newline>## Modules\<newline>[a](b)\<newline># U\<newline>[c](d)'')
     = Some \<lparr>m_start = 4, m_end = 14, m_group = None\<rparr>"
    by (simp add: search_eval)
  have e: "section_end (str ''# T\<newline>## Modules\<newline>[a](b)\<newline># U\<newline>[c](d)'') 14 = 22"
    by (simp add: search_eval)
  from rewrite_frame[OF m] show ?thesis
    by (simp add: e) (simp add: str_def)
qed


lemma star_some:
  "k (p, rest, g) = Some y \<Longrightarrow> \<exists>y'. re_m (Star C) (p, rest, g) k = Some y'"
  by (cases rest) (auto split: option.splits)

lemma star_run_some:
  "\<forall>c \<in> set ws. C c \<Longrightarrow>
   k (if ws = [] then p else Some (last ws), rest, g) = Some y \<Longrightarrow>
     \<exists>y'. re_m (Star C) (p, ws @ rest, g) k = Some y'"
proof (induction ws arbitrary: p)
  case Nil
  then show ?case by (simp add: star_some)
next
  case (Cons w ws)
  from Cons.prems have "k (if ws = [] then Some w else Some (last ws), rest, g) = Some y"
    by (simp split: if_splits)
  with Cons.IH[of "Some w"] Cons.prems(1)
  obtain y' where "re_m (Star C) (Some w, ws @ rest, g) k = Some y'" by auto
  with Cons.prems(1) show ?case by simp
qed

lemma plus_run_some:
  assumes "ws \<noteq> []" "\<forall>c \<in> set ws. C c"
      and "k (Some (last ws), rest, g) = Some y"
  shows "\<exists>y'. re_m (Plus C) (p, ws @ rest, g) k = Some y'"
proof -
  from assms(1) obtain w ws' where ws: "ws = w # ws'" by (cases ws) auto
  with assms(3) have "k (if ws' = [] then Some w else Some (last ws'), rest, g) = Some y"
    by (simp split: if_splits)
  from star_run_some[where ws=ws' and C=C and k=k and p="Some w" and rest=rest and g=g and y=y]
    this assms(2) ws show ?thesis by simp
qed

lemma search_found:
  "re_m r (if pre = [] then p else Some (last pre), ys, None) Some = Some st \<Longrightarrow>
     \<exists>m. search_from r p i (pre @ ys) = Some m \<and> m_start m \<le> i + length pre"
proof (induction pre arbitrary: p i)
  case Nil
  obtain p' xs' g' where "st = (p', xs', g')" by (cases st)
  with Nil show ?case by (subst search_from.simps) simp
next
  case (Cons x pre)
  from Cons.prems have "re_m r (if pre = [] then Some x else Some (last pre), ys, None) Some = Some st"
    by (simp split: if_splits)
  from Cons.IH[OF this, of "Suc i"] obtain m where
    m: "search_from r (Some x) (Suc i) (pre @ ys) = Some m" "m_start m \<le> Suc i + length pre"
    by blast
  show ?case
  proof (cases "re_m r (p, (x # pre) @ ys, None) Some")
    case None
    with m show ?thesis by (subst search_from.simps) simp
  next
    case (Some st')
    obtain p' xs' g' where "st' = (p', xs', g')" by (cases st')
    with Some show ?thesis by (subst search_from.simps) simp
  qed
qed

lemma heading_re_line:
  assumes "p = None \<or> p = Some 10"
      and "ws1 \<noteq> []" "\<forall>c \<in> set ws1. isspace c" "\<forall>c \<in> set ws2. isspace c"
      and "post = [] \<or> hd post = 10"
  shows "\<exists>st. re_m heading_re (p, str ''##'' @ ws1 @ str ''Modules'' @ ws2 @ post, None) Some
           = Some st"
proof -
  let ?k2 = "\<lambda>st. re_m Eol st (Some :: mstate \<Rightarrow> mstate option)"
  from assms(5) have "?k2 (if ws2 = [] then Some 115 else Some (last ws2), post, None)
      = Some (if ws2 = [] then Some 115 else Some (last ws2), post, None)"
    by auto
  from star_run_some[where ws=ws2 and C=isspace and k="?k2" and p="Some 115" and rest=post
      and g=None, OF assms(4) this]
  obtain y where y: "re_m (Star isspace) (Some 115, ws2 @ post, None) ?k2 = Some y" by blast
  let ?k1 = "\<lambda>st. re_m (seqs [Chr 77, Chr 111, Chr 100, Chr 117, Chr 108, Chr 101, Chr 115,
                      Star isspace, Eol]) st (Some :: mstate \<Rightarrow> mstate option)"
  from y have "?k1 (Some (last ws1), str ''Modules'' @ ws2 @ post, None) = Some y"
    by (simp add: str_def)
  from plus_run_some[where ws=ws1 and C=isspace and k="?k1" and p="Some 35"
      and rest="str ''Modules'' @ ws2 @ post" and g=None, OF assms(2,3) this]
  obtain y' where "re_m (Plus isspace) (Some 35, ws1 @ str ''Modules'' @ ws2 @ post, None) ?k1 = Some y'"
    by blast
  with assms(1) show ?thesis
    by (cases y') (auto simp: heading_re_def str_def)
qed

text \<open>
  C3, as amended.  A text that holds a line starting, with nothing before it on the line,
  with \<open>##\<close>, then one or more white-space characters, \<open>Modules\<close> and white space only
  up to the end of the line, has a heading match, and the match starts no later than
  that line.
\<close>

theorem heading_found:
  assumes "T = pre @ str ''##'' @ ws1 @ str ''Modules'' @ ws2 @ post"
      and "pre = [] \<or> last pre = 10"
      and "ws1 \<noteq> []" "\<forall>c \<in> set ws1. isspace c" "\<forall>c \<in> set ws2. isspace c"
      and "post = [] \<or> hd post = 10"
  shows "\<exists>m. re_search heading_re T = Some m \<and> m_start m \<le> length pre"
proof -
  from assms(2) have "(if pre = [] then None else Some (last pre)) = None
       \<or> (if pre = [] then None else Some (last pre)) = Some 10" by auto
  from heading_re_line[OF this assms(3-6)] obtain st where
    "re_m heading_re (if pre = [] then None else Some (last pre),
        str ''##'' @ ws1 @ str ''Modules'' @ ws2 @ post, None) Some = Some st" by blast
  from search_found[OF this, of 0] assms(1) show ?thesis
    by (simp add: re_search_def)
qed

theorem heading_found_witness:
  "\<exists>m. re_search heading_re (str ''# T\<newline>## Modules  \<newline>[a](b)'') = Some m
      \<and> m_start m \<le> length (str ''# T\<newline>'')"
  using heading_found[of "str ''# T\<newline>## Modules  \<newline>[a](b)''" "str ''# T\<newline>''" "str '' ''" "str ''  ''"
      "str ''\<newline>[a](b)''"]
  by (simp add: str_def isspace_def)

text \<open>
  C3, as stated, fails: the pattern is anchored at the start of the line and the line is
  not trimmed, so a heading line with leading white space is not matched and the text is
  copied unchanged.
\<close>

theorem heading_leading_space_counterexample:
  "re_search heading_re (str ''# T\<newline>  ## Modules\<newline>[a](b)\<newline>'') = None
   \<and> rewrite_modules_section (str ''# T\<newline>  ## Modules\<newline>[a](b)\<newline>'')
     = str ''# T\<newline>  ## Modules\<newline>[a](b)\<newline>''"
  by (simp add: search_eval)


section \<open>The link pattern, written out\<close>

text \<open>
  What the link pattern matches at a position, written out: after a character other
  than \<open>!\<close>, a \<open>[\<close>, the longest run of characters other than \<open>]\<close> (the label, not
  empty), \<open>](\<close>, the longest run of characters other than \<open>)\<close> (not empty) and \<open>)\<close>.
  The result is the label and the rest of the string behind the match.
\<close>

definition link_match :: "nat option \<Rightarrow> pystr \<Rightarrow> (pystr \<times> pystr) option" where
  "link_match p ys =
     (if p = Some 33 then None
      else case ys of
        [] \<Rightarrow> None
      | y # zs \<Rightarrow>
          if y \<noteq> 91 \<or> takeWhile (\<lambda>c. c \<noteq> 93) zs = [] then None
          else (case dropWhile (\<lambda>c. c \<noteq> 93) zs of
                  a # b # us \<Rightarrow>
                    if b \<noteq> 40 \<or> takeWhile (\<lambda>c. c \<noteq> 41) us = [] then None
                    else (case dropWhile (\<lambda>c. c \<noteq> 41) us of
                            [] \<Rightarrow> None
                          | c # rest \<Rightarrow> Some (takeWhile (\<lambda>c. c \<noteq> 93) zs, rest))
                | _ \<Rightarrow> None))"

lemma star_excl:
  assumes "\<And>p' x xs' g'. C x \<Longrightarrow> k (p', x # xs', g') = None"
  shows "re_m (Star C) (p, xs, g) k =
         k (if takeWhile C xs = [] then p else Some (last (takeWhile C xs)), dropWhile C xs, g)"
proof (induction xs arbitrary: p)
  case Nil
  show ?case by simp
next
  case (Cons x xs)
  show ?case
  proof (cases "C x")
    case False
    then show ?thesis by simp
  next
    case True
    from assms[OF True] have n: "k (p, x # xs, g) = None" .
    have "re_m (Star C) (p, x # xs, g) k = re_m (Star C) (Some x, xs, g) k"
      using True n by (simp split: option.splits)
    also have "\<dots> = k (if takeWhile C xs = [] then Some x else Some (last (takeWhile C xs)),
                          dropWhile C xs, g)"
      by (rule Cons.IH)
    finally show ?thesis using True by simp
  qed
qed

lemma plus_excl:
  assumes "\<And>p' x xs' g'. C x \<Longrightarrow> k (p', x # xs', g') = None"
  shows "re_m (Plus C) (p, xs, g) k =
         (if takeWhile C xs = [] then None
          else k (Some (last (takeWhile C xs)), dropWhile C xs, g))"
proof (cases xs)
  case Nil
  then show ?thesis by simp
next
  case (Cons x xs')
  show ?thesis
  proof (cases "C x")
    case False
    with Cons show ?thesis by simp
  next
    case True
    with Cons star_excl[of C k "Some x" xs' g, OF assms] show ?thesis by simp
  qed
qed

lemma take_length_dropWhile:
  "take (length xs - length (dropWhile P xs)) xs = takeWhile P xs"
proof -
  have "length xs - length (dropWhile P xs) = length (takeWhile P xs)"
    by (metis add_diff_cancel_right' length_append takeWhile_dropWhile_id)
  then show ?thesis by (simp add: takeWhile_eq_take[symmetric])
qed

lemma dropWhile_hd: "dropWhile (\<lambda>c. c \<noteq> a) xs = y # ys \<Longrightarrow> y = a"
  using hd_dropWhile[of "\<lambda>c. c \<noteq> a" xs] by auto

lemma link_re_match:
  "re_m link_re (p, ys, g) Some =
     (case link_match p ys of
        None \<Rightarrow> None
      | Some (label, rest) \<Rightarrow> Some (Some 41, rest, Some label))"
proof (cases "p = Some 33")
  case True
  then show ?thesis by (simp add: link_re_def link_match_def)
next
  case np: False
  show ?thesis
  proof (cases ys)
    case Nil
    with np show ?thesis by (simp add: link_re_def link_match_def)
  next
    case (Cons y zs)
    show ?thesis
    proof (cases "y = 91")
      case False
      with np Cons show ?thesis by (simp add: link_re_def link_match_def)
    next
      case y: True
      let ?k2 = "\<lambda>st. re_m (Chr 41) st (Some :: mstate \<Rightarrow> mstate option)"
      let ?k1 = "\<lambda>st. re_m (Chr 93) st (\<lambda>st. re_m (Chr 40) st
                    (\<lambda>st. re_m (Plus (\<lambda>c. c \<noteq> 41)) st ?k2))"
      let ?kg = "\<lambda>(p', xs', g'). ?k1 (p', xs', Some (take (length zs - length xs') zs))"
      have u: "re_m link_re (p, ys, g) Some = re_m (Plus (\<lambda>c. c \<noteq> 93)) (Some 91, zs, g) ?kg"
        using np Cons y by (simp add: link_re_def)
      have a: "re_m (Plus (\<lambda>c. c \<noteq> 93)) (Some 91, zs, g) ?kg =
         (if takeWhile (\<lambda>c. c \<noteq> 93) zs = [] then None
          else ?kg (Some (last (takeWhile (\<lambda>c. c \<noteq> 93) zs)), dropWhile (\<lambda>c. c \<noteq> 93) zs, g))"
        by (rule plus_excl) simp
      have b: "\<And>q us h. re_m (Plus (\<lambda>c. c \<noteq> 41)) (q, us, h) ?k2 =
         (if takeWhile (\<lambda>c. c \<noteq> 41) us = [] then None
          else ?k2 (Some (last (takeWhile (\<lambda>c. c \<noteq> 41) us)), dropWhile (\<lambda>c. c \<noteq> 41) us, h))"
        by (rule plus_excl) simp
      show ?thesis
      proof (cases "takeWhile (\<lambda>c. c \<noteq> 93) zs = []")
        case True
        with np Cons y show ?thesis unfolding u a by (simp add: link_match_def)
      next
        case l: False
        show ?thesis
        proof (cases "dropWhile (\<lambda>c. c \<noteq> 93) zs")
          case Nil
          with np Cons y l show ?thesis unfolding u a
            by (simp add: link_match_def del: dropWhile_eq_Nil_conv)
        next
          case d1: (Cons a r1)
          from dropWhile_hd[OF d1] have a93: "a = 93" .
          show ?thesis
          proof (cases r1)
            case Nil
            with np Cons y l d1 a93 show ?thesis unfolding u a by (simp add: link_match_def)
          next
            case r1: (Cons b us)
            show ?thesis
            proof (cases "b \<noteq> 40 \<or> takeWhile (\<lambda>c. c \<noteq> 41) us = []")
              case True
              with np Cons y l d1 a93 r1 show ?thesis unfolding u a
                by (auto simp: link_match_def b)
            next
              case bu: False
              show ?thesis
              proof (cases "dropWhile (\<lambda>c. c \<noteq> 41) us")
                case Nil
                with np Cons y l d1 a93 r1 bu show ?thesis unfolding u a
                  by (simp add: link_match_def b del: dropWhile_eq_Nil_conv)
              next
                case d2: (Cons c rest)
                from dropWhile_hd[OF d2] have c41: "c = 41" .
                have t: "take (length zs - Suc (Suc (length us))) zs = takeWhile (\<lambda>c. c \<noteq> 93) zs"
                  using take_length_dropWhile[of zs "\<lambda>c. c \<noteq> 93"] d1 r1 by simp
                from c41 np Cons y l d1 a93 r1 bu d2 show ?thesis unfolding u a
                  by (simp add: link_match_def b t)
              qed
            qed
          qed
        qed
      qed
    qed
  qed
qed


lemma search_shift:
  "search_from r p (Suc i) xs =
     map_option (\<lambda>m. m\<lparr>m_start := Suc (m_start m), m_end := Suc (m_end m)\<rparr>)
       (search_from r p i xs)"
proof (induction r p i xs rule: search_from.induct)
  case (1 r p i xs)
  show ?case
  proof (cases "re_m r (p, xs, None) Some")
    case (Some st)
    then show ?thesis
      by (cases st) (simp add: search_from.simps[of r p i xs] search_from.simps[of r p "Suc i" xs])
  next
    case None
    show ?thesis
    proof (cases xs)
      case Nil
      with None show ?thesis
        by (simp add: search_from.simps[of r p i "[]"] search_from.simps[of r p "Suc i" "[]"])
    next
      case (Cons x ys)
      from "1.IH"[OF None Cons] None Cons show ?thesis
        by (simp add: search_from.simps[of r p i "x # ys"] search_from.simps[of r p "Suc i" "x # ys"])
    qed
  qed
qed

lemma takeWhile_dropWhile_shape:
  "dropWhile (\<lambda>c. c \<noteq> a) xs = y # ys \<Longrightarrow>
     xs = takeWhile (\<lambda>c. c \<noteq> a) xs @ a # ys \<and> a \<notin> set (takeWhile (\<lambda>c. c \<noteq> a) xs)"
proof -
  assume d: "dropWhile (\<lambda>c. c \<noteq> a) xs = y # ys"
  from dropWhile_hd[OF d] have "y = a" .
  with d takeWhile_dropWhile_id[of "\<lambda>c. c \<noteq> a" xs]
  have "xs = takeWhile (\<lambda>c. c \<noteq> a) xs @ a # ys" by simp
  moreover have "a \<notin> set (takeWhile (\<lambda>c. c \<noteq> a) xs)"
    using set_takeWhileD by fastforce
  ultimately show ?thesis by simp
qed

lemma link_match_shape:
  assumes "link_match p ys = Some (label, rest)"
  shows "p \<noteq> Some 33 \<and> label \<noteq> [] \<and> 93 \<notin> set label \<and>
         (\<exists>url. url \<noteq> [] \<and> 41 \<notin> set url \<and>
                ys = 91 # label @ 93 # 40 # url @ 41 # rest)"
proof -
  from assms have np: "p \<noteq> Some 33" by (auto simp: link_match_def split: if_splits)
  from assms np obtain zs where ys: "ys = 91 # zs"
    and l: "takeWhile (\<lambda>c. c \<noteq> 93) zs \<noteq> []"
    by (cases ys) (auto simp: link_match_def split: if_splits)
  from assms np ys l obtain a us where d1: "dropWhile (\<lambda>c. c \<noteq> 93) zs = a # 40 # us"
    and u: "takeWhile (\<lambda>c. c \<noteq> 41) us \<noteq> []"
    by (auto simp: link_match_def split: if_splits list.splits)
  from assms np ys l d1 u obtain c where d2: "dropWhile (\<lambda>c. c \<noteq> 41) us = c # rest"
    and lab: "label = takeWhile (\<lambda>c. c \<noteq> 93) zs"
    by (auto simp: link_match_def split: if_splits list.splits)
  from takeWhile_dropWhile_shape[OF d1] lab
  have z: "zs = label @ 93 # 40 # us" "93 \<notin> set label" by simp_all
  from takeWhile_dropWhile_shape[OF d2]
  have us: "us = takeWhile (\<lambda>c. c \<noteq> 41) us @ 41 # rest"
    "41 \<notin> set (takeWhile (\<lambda>c. c \<noteq> 41) us)" by simp_all
  from ys z(1) us(1) have "ys = 91 # label @ 93 # 40 # takeWhile (\<lambda>c. c \<noteq> 41) us @ 41 # rest"
    by simp
  with u us(2) have "\<exists>url. url \<noteq> [] \<and> 41 \<notin> set url \<and>
                ys = 91 # label @ 93 # 40 # url @ 41 # rest" by blast
  moreover from l lab have "label \<noteq> []" by simp
  ultimately show ?thesis using np z(2) by simp
qed

lemma takeWhile_stop:
  "a \<notin> set xs \<Longrightarrow> takeWhile (\<lambda>c. c \<noteq> a) (xs @ a # ys) = xs
     \<and> dropWhile (\<lambda>c. c \<noteq> a) (xs @ a # ys) = a # ys"
  by (induction xs) auto

lemma link_match_intro:
  assumes "p \<noteq> Some 33" "label \<noteq> []" "93 \<notin> set label" "url \<noteq> []" "41 \<notin> set url"
  shows "link_match p (91 # label @ 93 # 40 # url @ 41 # rest) = Some (label, rest)"
  using assms takeWhile_stop[of 93 label "40 # url @ 41 # rest"] takeWhile_stop[of 41 url rest]
  by (simp add: link_match_def)

lemma link_sub_from_Nil: "link_sub_from p [] = []"
  by (subst link_sub_from.simps) (simp add: search_from.simps link_re_match link_match_def)

lemma link_sub_from_match:
  assumes "link_match p xs = Some (label, rest)"
  shows "link_sub_from p xs = 91 # label @ 93 # link_sub_from (Some 41) rest"
proof -
  from link_match_shape[OF assms] obtain url where
    xs0: "xs = 91 # label @ 93 # 40 # url @ 41 # rest" by auto
  define front where "front = 91 # label @ 93 # 40 # url"
  from xs0 have xs: "xs = front @ 41 # rest" by (simp add: front_def)
  have s: "search_from link_re p 0 xs =
      Some \<lparr>m_start = 0, m_end = length xs - length rest, m_group = Some label\<rparr>"
    using assms by (simp add: search_from.simps[of link_re p 0 xs] link_re_match)
  have e: "length xs - length rest = Suc (length front)"
    by (simp add: xs)
  have d: "drop (Suc (length front)) xs = rest"
    by (simp add: xs)
  have n: "xs ! (length front) = 41"
    by (simp add: xs)
  show ?thesis
    by (subst link_sub_from.simps) (simp add: s e d n)
qed

lemma link_sub_from_skip:
  assumes "link_match p (x # xs) = None"
  shows "link_sub_from p (x # xs) = x # link_sub_from (Some x) xs"
proof -
  have s: "search_from link_re p 0 (x # xs) =
     map_option (\<lambda>m. m\<lparr>m_start := Suc (m_start m), m_end := Suc (m_end m)\<rparr>)
       (search_from link_re (Some x) 0 xs)"
    using assms
    by (simp add: search_from.simps[of link_re p 0 "x # xs"] link_re_match search_shift)
  show ?thesis
  proof (cases "search_from link_re (Some x) 0 xs")
    case None
    then have "link_sub_from (Some x) xs = xs"
      by (subst link_sub_from.simps) simp
    with s None show ?thesis
      by (subst link_sub_from.simps) simp
  next
    case (Some m)
    from search_link_bounds[OF Some] have "0 < m_end m" by simp
    then have n: "(x # xs) ! m_end m = xs ! (m_end m - 1)"
      by (cases "m_end m") simp_all
    have r: "link_sub_from (Some x) xs =
        take (m_start m) xs @ [91] @ (case m_group m of None \<Rightarrow> [] | Some label \<Rightarrow> label) @ [93]
        @ link_sub_from (Some (xs ! (m_end m - 1))) (drop (m_end m) xs)"
      using Some by (subst link_sub_from.simps) simp
    show ?thesis
      using s Some n by (subst link_sub_from.simps) (simp add: r)
  qed
qed


lemma link_match_not_bracket: "x \<noteq> 91 \<Longrightarrow> link_match p (x # xs) = None"
  by (simp add: link_match_def)

lemma link_match_after_bang: "link_match (Some 33) xs = None"
  by (simp add: link_match_def)

lemma link_sub_from_copy:
  "91 \<notin> set xs \<Longrightarrow>
     link_sub_from p (xs @ ys) = xs @ link_sub_from (if xs = [] then p else Some (last xs)) ys"
proof (induction xs arbitrary: p)
  case Nil
  show ?case by simp
next
  case (Cons x xs)
  from Cons.prems have "link_match p (x # xs @ ys) = None"
    by (simp add: link_match_not_bracket)
  then have "link_sub_from p ((x # xs) @ ys) = x # link_sub_from (Some x) (xs @ ys)"
    by (simp add: link_sub_from_skip)
  with Cons.IH[of "Some x"] Cons.prems show ?case by simp
qed

lemma link_sub_from_image:
  assumes "91 \<notin> set alt" "91 \<notin> set img"
  shows "link_sub_from (Some 33) (str ''['' @ alt @ str ''](''  @ img @ str '')'' @ post) =
         str ''['' @ alt @ str ''](''  @ img @ str '')'' @ link_sub_from (Some 41) post"
proof -
  have a: "link_sub_from (Some 33) (91 # (alt @ [93, 40] @ img @ [41]) @ post) =
        91 # link_sub_from (Some 91) ((alt @ [93, 40] @ img @ [41]) @ post)"
    by (rule link_sub_from_skip) (rule link_match_after_bang)
  have "91 \<notin> set (alt @ [93, 40] @ img @ [41])" using assms by simp
  from link_sub_from_copy[OF this, of "Some 91" post]
  have "link_sub_from (Some 91) ((alt @ [93, 40] @ img @ [41]) @ post) =
        (alt @ [93, 40] @ img @ [41]) @ link_sub_from (Some 41) post" by simp
  with a show ?thesis by (simp add: str_def)
qed

lemma link_sub_from_link:
  assumes "p \<noteq> Some 33" "label \<noteq> []" "93 \<notin> set label" "url \<noteq> []" "41 \<notin> set url"
  shows "link_sub_from p (str ''['' @ label @ str ''](''  @ url @ str '')'' @ post) =
         str ''['' @ label @ str '']'' @ link_sub_from (Some 41) post"
  using link_sub_from_match[OF link_match_intro[OF assms, of post]]
  by (simp add: str_def)

text \<open>
  The look-behind at work: where no \<open>[\<close> stands before an image link \<open>![alt](img)\<close>,
  inside its alt text, inside its target, or between it and a following link
  \<open>[label](url)\<close>, the substitution copies everything up to and including the image link
  and turns the link into \<open>[label]\<close>.
\<close>

lemma image_kept_link_rewritten:
  assumes "91 \<notin> set pre" "91 \<notin> set alt" "91 \<notin> set img" "91 \<notin> set mid"
      and "mid = [] \<or> last mid \<noteq> 33"
      and "label \<noteq> []" "93 \<notin> set label" "url \<noteq> []" "41 \<notin> set url"
  shows "link_sub (pre @ str ''!['' @ alt @ str ''](''  @ img @ str '')'' @ mid
                   @ str ''['' @ label @ str ''](''  @ url @ str '')'' @ post) =
         pre @ str ''!['' @ alt @ str ''](''  @ img @ str '')'' @ mid
         @ str ''['' @ label @ str '']'' @ link_sub_from (Some 41) post"
proof -
  let ?link = "str ''['' @ label @ str ''](''  @ url @ str '')'' @ post"
  let ?image = "str ''['' @ alt @ str ''](''  @ img @ str '')''"
  from assms(1) have "91 \<notin> set (pre @ [33])" by simp
  from link_sub_from_copy[OF this, of None "?image @ mid @ ?link"]
  have 1: "link_sub_from None ((pre @ [33]) @ ?image @ mid @ ?link) =
        (pre @ [33]) @ link_sub_from (Some 33) (?image @ mid @ ?link)" by simp
  from link_sub_from_image[OF assms(2,3), of "mid @ ?link"]
  have 2: "link_sub_from (Some 33) (?image @ mid @ ?link) =
        ?image @ link_sub_from (Some 41) (mid @ ?link)" by simp
  from link_sub_from_copy[OF assms(4), of "Some 41" ?link]
  have 3: "link_sub_from (Some 41) (mid @ ?link) =
        mid @ link_sub_from (if mid = [] then Some 41 else Some (last mid)) ?link" .
  from assms(5) have "(if mid = [] then Some 41 else Some (last mid)) \<noteq> Some 33" by auto
  from link_sub_from_link[OF this assms(6-9), of post]
  have 4: "link_sub_from (if mid = [] then Some 41 else Some (last mid)) ?link =
        str ''['' @ label @ str '']'' @ link_sub_from (Some 41) post" .
  have "link_sub (pre @ str ''!['' @ alt @ str ''](''  @ img @ str '')'' @ mid @ ?link) =
        link_sub_from None ((pre @ [33]) @ ?image @ mid @ ?link)"
    by (simp add: link_sub_def str_def)
  also have "\<dots> = (pre @ [33]) @ ?image @ mid @ str ''['' @ label @ str '']''
                     @ link_sub_from (Some 41) post"
    by (simp only: 1 2 3 4)
  finally show ?thesis by (simp add: str_def)
qed

lemma image_kept_link_rewritten_example:
  "link_sub (str ''\<newline>- '' @ str ''!['' @ str ''alt'' @ str ''](''  @ str ''img.png'' @ str '')''
             @ str '' '' @ str ''['' @ str ''text'' @ str ''](''  @ str ''http://x'' @ str '')''
             @ str ''\<newline>'') =
   str ''\<newline>- '' @ str ''!['' @ str ''alt'' @ str ''](''  @ str ''img.png'' @ str '')''
   @ str '' '' @ str ''['' @ str ''text'' @ str '']'' @ str ''\<newline>''"
proof -
  have "link_sub_from (Some 41) (str ''\<newline>'') = str ''\<newline>''"
    by (simp add: link_sub_from.simps search_from.simps link_re_def str_def)
  with image_kept_link_rewritten[of "str ''\<newline>- ''" "str ''alt''" "str ''img.png''" "str '' ''"
       "str ''text''" "str ''http://x''" "str ''\<newline>''"]
  show ?thesis by (simp add: str_def)
qed

text \<open>
  C9.  The claim: an image link, whose \<open>[\<close> directly follows \<open>!\<close>, is left as it is, and
  the code's comment says that images are excluded by the look-behind.  The code at a
  section body with a linked image \<open>[![alt](img.png)](http://x)\<close>: the look-behind is
  tested only where a match starts, and the label of a link may hold \<open>!\<close> and \<open>[\<close>; the
  match starts at the outer \<open>[\<close>, its label runs to the image's \<open>]\<close>, and the image's
  target \<open>(img.png)\<close> is deleted.  The same happens after any \<open>[\<close> that is not closed
  before the image.
\<close>

theorem image_link_target_deleted:
  "link_sub (str ''\<newline>[![alt](img.png)](http://x)\<newline>'') = str ''\<newline>[![alt]](http://x)\<newline>''
   \<and> rewrite_modules_section (str ''## Modules\<newline>[![alt](img.png)](http://x)\<newline>'') =
     str ''## Modules\<newline>[![alt]](http://x)\<newline>''
   \<and> rewrite_modules_section (str ''## Modules\<newline>[x ![alt](img.png) [text](http://x)\<newline>'') =
     str ''## Modules\<newline>[x ![alt] [text]\<newline>''"
  by (simp add: search_eval)

text \<open>
  A qualifying link occurs in a string when the string splits into a part that does not
  end in \<open>!\<close>, then \<open>[\<close>, a label, \<open>](\<close>, a target, \<open>)\<close>, and a rest.
  \<open>link_occurs p s\<close> computes the same for a string that follows the character \<open>p\<close>.
\<close>

fun link_occurs :: "nat option \<Rightarrow> pystr \<Rightarrow> bool" where
  "link_occurs p [] = False"
| "link_occurs p (x # xs) = (link_match p (x # xs) \<noteq> None \<or> link_occurs (Some x) xs)"

definition qualifying_link :: "pystr \<Rightarrow> bool" where
  "qualifying_link s =
     (\<exists>pre label url post.
        s = pre @ [91] @ label @ [93, 40] @ url @ [41] @ post \<and>
        (pre = [] \<or> last pre \<noteq> 33) \<and>
        label \<noteq> [] \<and> 93 \<notin> set label \<and> url \<noteq> [] \<and> 41 \<notin> set url)"

lemma link_match_Nil: "link_match p [] = None"
  by (simp add: link_match_def)

lemma link_match_rest_shorter:
  "link_match p xs = Some (label, rest) \<Longrightarrow> length label + length rest + 5 < length xs + 1"
  using link_match_shape[of p xs label rest] by (auto simp: Suc_le_eq)

lemma link_sub_from_length:
  "length (link_sub_from p xs) \<le> length xs
   \<and> (length (link_sub_from p xs) = length xs \<longleftrightarrow> \<not> link_occurs p xs)"
proof (induction xs arbitrary: p rule: length_induct)
  case (1 xs)
  show ?case
  proof (cases xs)
    case Nil
    then show ?thesis by (simp add: link_sub_from_Nil)
  next
    case (Cons x ys)
    show ?thesis
    proof (cases "link_match p xs")
      case None
      with Cons have "link_sub_from p xs = x # link_sub_from (Some x) ys"
        by (simp add: link_sub_from_skip)
      moreover from "1.IH" Cons have
        "length (link_sub_from (Some x) ys) \<le> length ys
         \<and> (length (link_sub_from (Some x) ys) = length ys \<longleftrightarrow> \<not> link_occurs (Some x) ys)"
        by simp
      ultimately show ?thesis using None Cons by simp
    next
      case (Some lr)
      obtain label rest where lr: "lr = (label, rest)" by (cases lr)
      from Some lr have m: "link_match p xs = Some (label, rest)" by simp
      from link_match_rest_shorter[OF m] have l: "length label + length rest + 4 < length xs"
        by simp
      then have "length rest < length xs" by simp
      with "1.IH" have "length (link_sub_from (Some 41) rest) \<le> length rest" by blast
      with l have "length (link_sub_from p xs) < length xs"
        by (simp add: link_sub_from_match[OF m])
      moreover from m Cons have "link_occurs p xs" by simp
      ultimately show ?thesis by simp
    qed
  qed
qed

lemma link_occurs_decomp:
  "link_occurs p s \<longleftrightarrow>
     (\<exists>pre label url post.
        s = pre @ [91] @ label @ [93, 40] @ url @ [41] @ post \<and>
        (if pre = [] then p \<noteq> Some 33 else last pre \<noteq> 33) \<and>
        label \<noteq> [] \<and> 93 \<notin> set label \<and> url \<noteq> [] \<and> 41 \<notin> set url)"
  (is "_ \<longleftrightarrow> ?R p s")
proof (induction s arbitrary: p)
  case Nil
  show ?case by simp
next
  case (Cons x xs)
  show ?case
  proof
    assume "link_occurs p (x # xs)"
    then consider (here) "link_match p (x # xs) \<noteq> None" | (later) "link_occurs (Some x) xs"
      by auto
    then show "?R p (x # xs)"
    proof cases
      case here
      then obtain label rest where "link_match p (x # xs) = Some (label, rest)" by auto
      from link_match_shape[OF this] obtain url where
        "p \<noteq> Some 33" "label \<noteq> []" "93 \<notin> set label" "url \<noteq> []" "41 \<notin> set url"
        "x # xs = 91 # label @ 93 # 40 # url @ 41 # rest" by auto
      then have "x # xs = [] @ [91] @ label @ [93, 40] @ url @ [41] @ rest \<and>
        (if ([]::pystr) = [] then p \<noteq> Some 33 else last [] \<noteq> 33) \<and>
        label \<noteq> [] \<and> 93 \<notin> set label \<and> url \<noteq> [] \<and> 41 \<notin> set url" by simp
      then show ?thesis by blast
    next
      case later
      with Cons.IH[of "Some x"] obtain pre label url post where
        a: "xs = pre @ [91] @ label @ [93, 40] @ url @ [41] @ post"
        "(if pre = [] then Some x \<noteq> Some 33 else last pre \<noteq> 33)"
        "label \<noteq> []" "93 \<notin> set label" "url \<noteq> []" "41 \<notin> set url" by auto
      then have "x # xs = (x # pre) @ [91] @ label @ [93, 40] @ url @ [41] @ post \<and>
        (if x # pre = [] then p \<noteq> Some 33 else last (x # pre) \<noteq> 33) \<and>
        label \<noteq> [] \<and> 93 \<notin> set label \<and> url \<noteq> [] \<and> 41 \<notin> set url"
        by (auto split: if_splits)
      then show ?thesis by blast
    qed
  next
    assume "?R p (x # xs)"
    then obtain pre label url post where
      a: "x # xs = pre @ [91] @ label @ [93, 40] @ url @ [41] @ post"
      "(if pre = [] then p \<noteq> Some 33 else last pre \<noteq> 33)"
      "label \<noteq> []" "93 \<notin> set label" "url \<noteq> []" "41 \<notin> set url" by auto
    show "link_occurs p (x # xs)"
    proof (cases pre)
      case Nil
      with a have "p \<noteq> Some 33" "x # xs = 91 # label @ 93 # 40 # url @ 41 # post" by simp_all
      with link_match_intro[of p label url post] a(3-6)
      have "link_match p (x # xs) = Some (label, post)" by simp
      then show ?thesis by simp
    next
      case (Cons y pre')
      with a have x: "y = x" and xs: "xs = pre' @ [91] @ label @ [93, 40] @ url @ [41] @ post"
        and l: "(if pre' = [] then Some x \<noteq> Some 33 else last pre' \<noteq> 33)"
        by (auto split: if_splits)
      have "?R (Some x) xs"
        apply (rule exI[of _ pre'])
        apply (rule exI[of _ label])
        apply (rule exI[of _ url])
        apply (rule exI[of _ post])
        using xs l a(3-6) apply simp
        done
      with Cons.IH[of "Some x"] show ?thesis by simp
    qed
  qed
qed

lemma link_occurs_None: "link_occurs None s \<longleftrightarrow> qualifying_link s"
proof -
  have "\<And>pre::pystr. (if pre = [] then (None::nat option) \<noteq> Some 33 else last pre \<noteq> 33)
      \<longleftrightarrow> (pre = [] \<or> last pre \<noteq> 33)" by simp
  then show ?thesis
    unfolding link_occurs_decomp qualifying_link_def by (simp only:)
qed


lemma link_sub_from_id: "\<not> link_occurs p xs \<Longrightarrow> link_sub_from p xs = xs"
proof (induction xs arbitrary: p)
  case Nil
  show ?case by (rule link_sub_from_Nil)
next
  case (Cons x xs)
  from Cons.prems have "link_match p (x # xs) = None" "\<not> link_occurs (Some x) xs"
    by (auto simp del: not_None_eq)
  with Cons.IH[of "Some x"] show ?case by (simp add: link_sub_from_skip)
qed

text \<open>The section body \<open>text[start_idx:end_idx]\<close> for the heading match \<open>m\<close>.\<close>

definition section_body :: "pystr \<Rightarrow> match \<Rightarrow> pystr" where
  "section_body T m = drop (m_end m) (take (section_end T (m_end m)) T)"

lemma rewrite_length:
  assumes "re_search heading_re T = Some m"
  shows "length (rewrite_modules_section T) + length (section_body T m)
         = length T + length (link_sub (section_body T m))"
proof -
  let ?s = "m_end m" and ?e = "section_end T (m_end m)"
  from re_search_bounds[OF assms] have s: "?s \<le> length T" by simp
  from section_end_bounds[OF s] have e: "?s \<le> ?e" "?e \<le> length T" by simp_all
  have "rewrite_modules_section T = take ?s T @ link_sub (section_body T m) @ drop ?e T"
    using assms by (simp add: rewrite_modules_section_def new_text_def Let_def section_body_def)
  with s e show ?thesis by (simp add: section_body_def)
qed

text \<open>
  C10.  The rewritten text is never longer than the input, and it has the same length
  exactly when the heading pattern finds nothing or no qualifying link occurs in the
  section body.
\<close>

theorem rewrite_never_longer:
  "length (rewrite_modules_section T) \<le> length T
   \<and> (length (rewrite_modules_section T) = length T \<longleftrightarrow>
        (case re_search heading_re T of
           None \<Rightarrow> True
         | Some m \<Rightarrow> \<not> qualifying_link (section_body T m)))"
proof (cases "re_search heading_re T")
  case None
  then show ?thesis by (simp add: rewrite_modules_section_def)
next
  case (Some m)
  from link_sub_from_length[of None "section_body T m"]
  have "length (link_sub (section_body T m)) \<le> length (section_body T m)"
    "length (link_sub (section_body T m)) = length (section_body T m)
       \<longleftrightarrow> \<not> qualifying_link (section_body T m)"
    by (simp_all add: link_sub_def link_occurs_None)
  with rewrite_length[OF Some] Some show ?thesis by auto
qed

theorem rewrite_never_longer_witness:
  "length (rewrite_modules_section (str ''## Modules\<newline>[a](b)''))
     \<le> length (str ''## Modules\<newline>[a](b)'')"
  using rewrite_never_longer[of "str ''## Modules\<newline>[a](b)''"] by (rule conjunct1)

lemma rewrite_fixpoint:
  "rewrite_modules_section T = T \<longleftrightarrow>
     (case re_search heading_re T of
        None \<Rightarrow> True
      | Some m \<Rightarrow> \<not> qualifying_link (section_body T m))"
proof (cases "re_search heading_re T")
  case None
  then show ?thesis by (simp add: rewrite_modules_section_def)
next
  case (Some m)
  let ?s = "m_end m" and ?e = "section_end T (m_end m)"
  from re_search_bounds[OF Some] have s: "?s \<le> length T" by simp
  from section_end_bounds[OF s] have e: "?s \<le> ?e" "?e \<le> length T" by simp_all
  have r: "rewrite_modules_section T = take ?s T @ link_sub (section_body T m) @ drop ?e T"
    using Some by (simp add: rewrite_modules_section_def new_text_def Let_def section_body_def)
  have t: "take ?s T @ section_body T m @ drop ?e T = T"
  proof -
    have "take ?s (take ?e T) @ drop ?s (take ?e T) = take ?e T"
      by (rule append_take_drop_id)
    moreover have "take ?s (take ?e T) = take ?s T"
      using e by (simp add: min_def)
    ultimately have a: "take ?s T @ drop ?s (take ?e T) = take ?e T" by simp
    have "take ?s T @ section_body T m @ drop ?e T
          = (take ?s T @ drop ?s (take ?e T)) @ drop ?e T"
      by (simp add: section_body_def)
    also have "\<dots> = take ?e T @ drop ?e T" by (simp only: a)
    also have "\<dots> = T" by simp
    finally show ?thesis .
  qed
  show ?thesis
  proof
    assume "rewrite_modules_section T = T"
    then have "length (rewrite_modules_section T) = length T" by simp
    with rewrite_length[OF Some]
    have "length (link_sub (section_body T m)) = length (section_body T m)" by simp
    with link_sub_from_length[of None "section_body T m"] Some show
      "case re_search heading_re T of None \<Rightarrow> True
       | Some m \<Rightarrow> \<not> qualifying_link (section_body T m)"
      by (simp add: link_sub_def link_occurs_None)
  next
    assume "case re_search heading_re T of None \<Rightarrow> True
       | Some m \<Rightarrow> \<not> qualifying_link (section_body T m)"
    with Some have "\<not> link_occurs None (section_body T m)" by (simp add: link_occurs_None)
    from link_sub_from_id[OF this] have "link_sub (section_body T m) = section_body T m"
      by (simp add: link_sub_def)
    with r t show "rewrite_modules_section T = T" by simp
  qed
qed

text \<open>
  C1, as amended.  Rewriting the output again gives the output back exactly when the
  heading pattern finds nothing in the output or no qualifying link occurs in the
  output's own section body.
\<close>

theorem rewrite_twice:
  "rewrite_modules_section (rewrite_modules_section T) = rewrite_modules_section T \<longleftrightarrow>
     (case re_search heading_re (rewrite_modules_section T) of
        None \<Rightarrow> True
      | Some m \<Rightarrow> \<not> qualifying_link (section_body (rewrite_modules_section T) m))"
  by (rule rewrite_fixpoint)

text \<open>
  C1, as stated, fails: a link that is directly followed by another parenthesised group
  leaves, once its target is removed, a new link for the second pass.
\<close>

theorem rewrite_twice_counterexample:
  "rewrite_modules_section (str ''## Modules\<newline>[a](b)(c)\<newline>'') = str ''## Modules\<newline>[a](c)\<newline>''
   \<and> rewrite_modules_section (rewrite_modules_section (str ''## Modules\<newline>[a](b)(c)\<newline>''))
       = str ''## Modules\<newline>[a]\<newline>''"
  by (simp add: search_eval)


section \<open>The end of the section\<close>




















end
